theory Spec2Isabelle
  imports
    Main
    "HOL-Library.Word"
    "HOL-Library.Signed_Division"
begin

section \<open>Go values\<close>

text \<open>
  The package computes with Go's \<open>int\<close> and \<open>int64\<close>. On the 64-bit platforms Go
  targets both are 64-bit two's complement integers whose \<open>+\<close> and \<open>*\<close> wrap around
  silently; they are modelled as \<open>64 word\<close>, read through \<open>sint\<close> and compared with the
  signed orders \<open>\<le>s\<close> and \<open><s\<close>. A Go \<open>string\<close> is a sequence of bytes: a \<open>char list\<close>.
\<close>

type_synonym int64 = "64 word"

text \<open>Go's \<open>/\<close> and \<open>%\<close> truncate towards zero; the caller checks the divisor first.\<close>

definition go_div :: "int64 \<Rightarrow> int64 \<Rightarrow> int64" where
  "go_div a b = word_of_int (sint a sdiv sint b)"

definition go_rem :: "int64 \<Rightarrow> int64 \<Rightarrow> int64" where
  "go_rem a b = word_of_int (sint a smod sint b)"

text \<open>
  The run-time panics the package can raise. Allocation itself is taken to succeed:
  \<open>make\<close> panics on a negative length or capacity only.
\<close>

datatype panic = DivideByZero | IndexOutOfRange | SliceBounds | MakeSliceLen | MakeSliceCap | IntnArgument

text \<open>Indexing \<open>xs[i]\<close> with a Go \<open>int\<close>.\<close>

definition elem :: "'a list \<Rightarrow> int64 \<Rightarrow> panic + 'a" where
  "elem xs i = (if 0 \<le>s i \<and> unat i < length xs then Inr (xs ! unat i) else Inl IndexOutOfRange)"

section \<open>Configuration and generator\<close>

record Config =
  JustIntonationDigits :: int64
  EqualTemperamentDigits :: int64
  Separator :: string

record Generator = Config +
  justIntonationBytes :: "string list"
  equalTemperamentBytes :: string
  justIntonationLen :: int64
  equalTemperamentLen :: int64
  justIntonationMap :: "string \<rightharpoonup> int64"
  equalTemperamentMap :: "char \<rightharpoonup> int64"

definition DefaultConfig :: Config where
  "DefaultConfig = \<lparr>JustIntonationDigits = 4, EqualTemperamentDigits = 5, Separator = ''-''\<rparr>"

text \<open>The loop \<open>for i, x := range xs { m[x] = i }\<close> that builds a reverse lookup map.\<close>

fun indexMap :: "'a list \<Rightarrow> nat \<Rightarrow> ('a \<rightharpoonup> int64) \<Rightarrow> ('a \<rightharpoonup> int64)" where
  "indexMap [] i m = m"
| "indexMap (x # xs) i m = indexMap xs (Suc i) (m(x \<mapsto> of_nat i))"

text \<open>
  \<open>New\<close>. The generator's random source is not a field of the record here: the operations
  that draw from it take the stream of draws as an argument and return what is left of it.
\<close>

definition New :: "Config \<Rightarrow> Generator" where
  "New config =
    (let notes = [''do'', ''re'', ''mi'', ''fa'', ''so'', ''la'', ''ti''];
         chars = ''0123456789ab''
     in \<lparr>JustIntonationDigits = JustIntonationDigits config,
         EqualTemperamentDigits = EqualTemperamentDigits config,
         Separator = Separator config,
         justIntonationBytes = notes,
         equalTemperamentBytes = chars,
         justIntonationLen = of_nat (length notes),
         equalTemperamentLen = of_nat (length chars),
         justIntonationMap = indexMap notes 0 Map.empty,
         equalTemperamentMap = indexMap chars 0 Map.empty\<rparr>)"

definition NewWithDefaults :: Generator where
  "NewWithDefaults = New DefaultConfig"

section \<open>Integer power and the size of the identifier space\<close>

text \<open>The loop of \<open>intPow\<close>, on the three variables it updates.\<close>

function intPow_loop :: "int64 \<Rightarrow> int64 \<Rightarrow> int64 \<Rightarrow> int64" where
  "intPow_loop result base exp =
    (if 0 <s exp
     then intPow_loop (if go_rem exp 2 = 1 then result * base else result) (base * base) (go_div exp 2)
     else result)"
  by pat_completeness auto
termination
proof (relation "measure (\<lambda>(result, base, exp). nat (sint exp))")
  show "wf (measure (\<lambda>(result, base, exp). nat (sint exp)))" by simp
next
  fix result base exp :: int64
  assume "0 <s exp"
  then have pos: "0 < sint exp" by (simp add: word_sless_alt)
  have lt: "sint exp < 2 ^ 63" using sint_lt [of exp] by simp
  have eq: "sint exp sdiv 2 = sint exp div 2"
    using pos by (simp add: signed_divide_int_def sgn_if)
  have "sint (word_of_int (sint exp div 2) :: int64) = sint exp div 2"
    using pos lt by (simp add: sint_sbintrunc' signed_take_bit_int_eq_self)
  then have "nat (sint (go_div exp 2)) < nat (sint exp)"
    using pos by (simp add: go_div_def eq)
  then show "((if go_rem exp 2 = 1 then result * base else result, base * base, go_div exp 2),
              (result, base, exp)) \<in> measure (\<lambda>(result, base, exp). nat (sint exp))"
    by simp
qed

definition intPow :: "int64 \<Rightarrow> int64 \<Rightarrow> int64" where
  "intPow base exp = intPow_loop 1 base exp"

definition MaxCombinations :: "Generator \<Rightarrow> int64" where
  "MaxCombinations g =
    (let justMax = intPow (justIntonationLen g) (JustIntonationDigits g);
         equalMax = intPow (equalTemperamentLen g) (EqualTemperamentDigits g)
     in justMax * equalMax)"

section \<open>Position to identifier\<close>

text \<open>
  The two digit loops of \<open>PositionToID\<close>,
  \<open>for i := n - 1; i >= 0; i-- { digits[i] = int(temp % radix); temp /= radix }\<close>,
  where \<open>radix\<close> is a field of the generator: a zero radix panics.
\<close>

primrec fillDigits :: "int64 \<Rightarrow> nat \<Rightarrow> int64 \<Rightarrow> int64 list \<Rightarrow> panic + int64 list" where
  "fillDigits radix 0 temp digits = Inr digits"
| "fillDigits radix (Suc i) temp digits =
    (if radix = 0 then Inl DivideByZero
     else fillDigits radix i (go_div temp radix) (digits[i := go_rem temp radix]))"

text \<open>\<open>make([]int, n)\<close> followed by the digit loop.\<close>

definition makeDigits :: "int64 \<Rightarrow> int64 \<Rightarrow> int64 \<Rightarrow> panic + int64 list" where
  "makeDigits radix n v =
    (if n <s 0 then Inl MakeSliceLen
     else fillDigits radix (unat n) v (replicate (unat n) 0))"

text \<open>\<open>for _, digit := range justDigits { result = append(result, g.justIntonationBytes[digit]...) }\<close>\<close>

fun appendNotes :: "string list \<Rightarrow> int64 list \<Rightarrow> string \<Rightarrow> panic + string" where
  "appendNotes notes [] result = Inr result"
| "appendNotes notes (digit # digits) result =
    (case elem notes digit of
       Inl e \<Rightarrow> Inl e
     | Inr note \<Rightarrow> appendNotes notes digits (result @ note))"

text \<open>\<open>for _, digit := range equalDigits { result = append(result, g.equalTemperamentBytes[digit]) }\<close>\<close>

fun appendChars :: "string \<Rightarrow> int64 list \<Rightarrow> string \<Rightarrow> panic + string" where
  "appendChars chars [] result = Inr result"
| "appendChars chars (digit # digits) result =
    (case elem chars digit of
       Inl e \<Rightarrow> Inl e
     | Inr c \<Rightarrow> appendChars chars digits (result @ [c]))"

definition PositionToID :: "Generator \<Rightarrow> int64 \<Rightarrow> panic + string" where
  "PositionToID g position =
    (if position <s 0 then Inr []
     else
       let equalMax = intPow (equalTemperamentLen g) (EqualTemperamentDigits g) in
       if equalMax = 0 then Inl DivideByZero
       else
         let justValue = go_div position equalMax;
             equalValue = go_rem position equalMax;
             capacity = JustIntonationDigits g * 2 + of_nat (length (Separator g))
                        + EqualTemperamentDigits g
         in
         if capacity <s 0 then Inl MakeSliceCap
         else
           case makeDigits (justIntonationLen g) (JustIntonationDigits g) justValue of
             Inl e \<Rightarrow> Inl e
           | Inr justDigits \<Rightarrow>
           case appendNotes (justIntonationBytes g) justDigits [] of
             Inl e \<Rightarrow> Inl e
           | Inr result \<Rightarrow>
           case makeDigits (equalTemperamentLen g) (EqualTemperamentDigits g) equalValue of
             Inl e \<Rightarrow> Inl e
           | Inr equalDigits \<Rightarrow>
               appendChars (equalTemperamentBytes g) equalDigits (result @ Separator g))"

section \<open>Identifier to position\<close>

text \<open>
  \<open>strings.Index\<close> of the standard library: the offset of the first occurrence of
  \<open>sep\<close> in \<open>s\<close>, \<open>None\<close> for Go's \<open>-1\<close>.
\<close>

fun Index :: "string \<Rightarrow> string \<Rightarrow> nat option" where
  "Index [] sep = (if sep = [] then Some 0 else None)"
| "Index (c # cs) sep =
    (if take (length sep) (c # cs) = sep then Some 0 else map_option Suc (Index cs sep))"

text \<open>
  The width \<open>utf8.DecodeRuneInString\<close> reports for the first rune of a string: an ASCII
  byte, and any byte that does not start a well-formed UTF-8 sequence, has width 1.
\<close>

definition byte :: "char \<Rightarrow> nat" where
  "byte c = of_char c"

fun runeSize :: "string \<Rightarrow> nat" where
  "runeSize [] = 0"
| "runeSize (c # cs) =
    (let b = byte c in
     if b < 0xC2 \<or> 0xF4 < b then 1
     else
       let sz = (if b < 0xE0 then 2 else if b < 0xF0 then 3 else 4 :: nat);
           lo = (if b = 0xE0 then 0xA0 else if b = 0xF0 then 0x90 else 0x80 :: nat);
           hi = (if b = 0xED then 0x9F else if b = 0xF4 then 0x8F else 0xBF :: nat)
       in
       if length (c # cs) < sz then 1
       else if byte (cs ! 0) < lo \<or> hi < byte (cs ! 0) then 1
       else if sz \<le> 2 then 2
       else if byte (cs ! 1) < 0x80 \<or> 0xBF < byte (cs ! 1) then 1
       else if sz \<le> 3 then 3
       else if byte (cs ! 2) < 0x80 \<or> 0xBF < byte (cs ! 2) then 1
       else 4)"

text \<open>\<open>strings.explode\<close> without a limit: one string for each UTF-8 sequence.\<close>

function explode :: "string \<Rightarrow> string list" where
  "explode s = (if s = [] then [] else take (runeSize s) s # explode (drop (runeSize s) s))"
  by pat_completeness auto
termination
proof (relation "measure length")
  show "wf (measure (length :: string \<Rightarrow> nat))" by simp
next
  fix s :: string
  assume "s \<noteq> []"
  then obtain c cs where s: "s = c # cs" by (cases s) auto
  have "0 < runeSize (c # cs)" by (simp add: Let_def)
  then show "(drop (runeSize s) s, s) \<in> measure length" using s by simp
qed

text \<open>
  \<open>strings.Split(s, sep)\<close>, that is \<open>genSplit(s, sep, 0, -1)\<close>: an empty separator
  explodes the string, any other is cut out at each of its successive occurrences.
\<close>

function genSplit :: "string \<Rightarrow> string \<Rightarrow> string list" where
  "genSplit s sep =
    (if sep = [] then explode s
     else case Index s sep of
            None \<Rightarrow> [s]
          | Some m \<Rightarrow> take m s # genSplit (drop (m + length sep) s) sep)"
  by pat_completeness auto
termination
proof (relation "measure (\<lambda>(s, sep). length s)")
  show "wf (measure (\<lambda>(s :: string, sep :: string). length s))" by simp
next
  fix s sep :: string and m :: nat
  assume sep: "sep \<noteq> []" and m: "Index s sep = Some m"
  have "s \<noteq> []" using sep m by (cases s) auto
  then show "((drop (m + length sep) s, sep), (s, sep)) \<in> measure (\<lambda>(s, sep). length s)"
    using sep by simp
qed

definition Split :: "string \<Rightarrow> string \<Rightarrow> string list" where
  "Split s sep = genSplit s sep"

text \<open>
  The melody loop of \<open>IDToPosition\<close>, two bytes at a time; \<open>None\<close> is its
  \<open>return -1\<close>. A single byte left over is the case \<open>i+1 >= len(justPart)\<close>.
\<close>

fun parseJust :: "Generator \<Rightarrow> string \<Rightarrow> int64 \<Rightarrow> int64 option" where
  "parseJust g [] justValue = Some justValue"
| "parseJust g [c] justValue = None"
| "parseJust g (c1 # c2 # rest) justValue =
    (case justIntonationMap g [c1, c2] of
       Some i \<Rightarrow> parseJust g rest (justValue * justIntonationLen g + i)
     | None \<Rightarrow> None)"

text \<open>The pitch loop of \<open>IDToPosition\<close>, one byte at a time.\<close>

fun parseEqual :: "Generator \<Rightarrow> string \<Rightarrow> int64 \<Rightarrow> int64 option" where
  "parseEqual g [] equalValue = Some equalValue"
| "parseEqual g (c # rest) equalValue =
    (case equalTemperamentMap g c of
       Some i \<Rightarrow> parseEqual g rest (equalValue * equalTemperamentLen g + i)
     | None \<Rightarrow> None)"

definition IDToPosition :: "Generator \<Rightarrow> string \<Rightarrow> int64" where
  "IDToPosition g id' =
    (let parts = Split id' (Separator g) in
     if length parts \<noteq> 2 then - 1
     else
       let justPart = parts ! 0; equalPart = parts ! 1 in
       if int (length justPart) \<noteq> sint (JustIntonationDigits g * 2)
          \<or> int (length equalPart) \<noteq> sint (EqualTemperamentDigits g)
       then - 1
       else
         case parseJust g justPart 0 of
           None \<Rightarrow> - 1
         | Some justValue \<Rightarrow>
         case parseEqual g equalPart 0 of
           None \<Rightarrow> - 1
         | Some equalValue \<Rightarrow>
             justValue * intPow (equalTemperamentLen g) (EqualTemperamentDigits g) + equalValue)"

section \<open>Sequential batches\<close>

text \<open>\<open>for i := int64(0); i < count; i++ { ids[i] = g.PositionToID(startPosition + i) }\<close>\<close>

function seqLoop :: "Generator \<Rightarrow> int64 \<Rightarrow> nat \<Rightarrow> nat \<Rightarrow> string list \<Rightarrow> panic + string list" where
  "seqLoop g startPosition count i ids =
    (if i < count
     then case PositionToID g (startPosition + of_nat i) of
            Inl e \<Rightarrow> Inl e
          | Inr id' \<Rightarrow> if i < length ids
                     then seqLoop g startPosition count (Suc i) (ids[i := id'])
                     else Inl IndexOutOfRange
     else Inr ids)"
  by pat_completeness auto
termination
  by (relation "measure (\<lambda>(g, startPosition, count, i, ids). count - i)") auto

declare seqLoop.simps [simp del]

definition BatchGenerateIDs :: "Generator \<Rightarrow> int64 \<Rightarrow> int64 \<Rightarrow> panic + string list" where
  "BatchGenerateIDs g count startPosition =
    (if count \<le>s 0 \<or> startPosition <s 0 then Inr []
     else
       let maxCombinations = MaxCombinations g in
       if maxCombinations \<le>s startPosition then Inr []
       else
         let count = (if maxCombinations <s startPosition + count
                      then maxCombinations - startPosition else count)
         in
         if count \<le>s 0 then Inr []
         else seqLoop g startPosition (unat count) 0 (replicate (unat count) []))"

section \<open>Random batches\<close>

text \<open>
  The generator's \<open>rand\<close> is the sequence of the draws still to come, the next one at
  index 0. \<open>Intn(n)\<close> takes the next draw into \<open>[0, n)\<close> and panics unless \<open>n\<close> is
  positive. Every sequence of results of the library's generator is the image of some
  sequence of draws, so a statement about all of them covers every seed.
\<close>

type_synonym rng = "nat \<Rightarrow> nat"

definition Intn :: "int64 \<Rightarrow> rng \<Rightarrow> panic + int64 \<times> rng" where
  "Intn n r =
    (if n \<le>s 0 then Inl IntnArgument
     else Inr (of_nat (r 0 mod unat n), \<lambda>k. r (Suc k)))"

text \<open>
  The Fisher-Yates loop
  \<open>for i := max - 1; i > 0; i-- { j := g.rand.Intn(i + 1); positions[i], positions[j] = positions[j], positions[i] }\<close>;
  the first argument is \<open>i\<close>.
\<close>

primrec fisherYates :: "nat \<Rightarrow> int64 list \<Rightarrow> rng \<Rightarrow> panic + int64 list \<times> rng" where
  "fisherYates 0 positions r = Inr (positions, r)"
| "fisherYates (Suc k) positions r =
    (case Intn (of_nat (Suc k) + 1) r of
       Inl e \<Rightarrow> Inl e
     | Inr (j, r') \<Rightarrow>
         if Suc k < length positions \<and> unat j < length positions
         then fisherYates k (positions[Suc k := positions ! unat j, unat j := positions ! Suc k]) r'
         else Inl IndexOutOfRange)"

text \<open>
  The rejection loop \<open>for len(positions) < count { ... }\<close>. Nothing bounds the number of
  its rounds: \<open>None\<close> is the loop that never ends.
\<close>

partial_function (option) sampleLoop ::
  "int64 \<Rightarrow> int64 \<Rightarrow> int64 set \<Rightarrow> int64 list \<Rightarrow> rng \<Rightarrow> (panic + int64 list \<times> rng) option" where
  "sampleLoop max' count used positions r =
    (if int (length positions) < sint count
     then case Intn max' r of
            Inl e \<Rightarrow> Some (Inl e)
          | Inr (pos, r') \<Rightarrow>
              if pos \<notin> used
              then sampleLoop max' count (insert pos used) (positions @ [pos]) r'
              else sampleLoop max' count used positions r'
     else Some (Inr (positions, r)))"

declare sampleLoop.simps [code]

definition randomSample :: "int64 \<Rightarrow> int64 \<Rightarrow> rng \<Rightarrow> (panic + int64 list \<times> rng) option" where
  "randomSample max' count r =
    (if max' \<le>s count
     then
       if max' <s 0 then Some (Inl MakeSliceLen)
       else
         case fisherYates (unat max' - 1) (map of_nat [0..<unat max']) r of
           Inl e \<Rightarrow> Some (Inl e)
         | Inr (positions, r') \<Rightarrow>
             if max' <s count then Some (Inl SliceBounds)
             else Some (Inr (take (unat count) positions, r'))
     else if count <s 0 then Some (Inl MakeSliceCap)
     else sampleLoop max' count {} [] r)"

text \<open>\<open>for i, pos := range positions { ids[i] = g.PositionToID(int64(pos)) }\<close>\<close>

fun fillIDs :: "Generator \<Rightarrow> int64 list \<Rightarrow> nat \<Rightarrow> string list \<Rightarrow> panic + string list" where
  "fillIDs g [] i ids = Inr ids"
| "fillIDs g (pos # rest) i ids =
    (case PositionToID g pos of
       Inl e \<Rightarrow> Inl e
     | Inr id' \<Rightarrow> if i < length ids then fillIDs g rest (Suc i) (ids[i := id'])
                else Inl IndexOutOfRange)"

definition BatchGenerateRandomIDs ::
  "Generator \<Rightarrow> int64 \<Rightarrow> rng \<Rightarrow> (panic + string list \<times> rng) option" where
  "BatchGenerateRandomIDs g count r =
    (if count \<le>s 0 then Some (Inr ([], r))
     else
       let maxCombinations = MaxCombinations g in
       if maxCombinations <s count then Some (Inr ([], r))
       else
         case randomSample maxCombinations count r of
           None \<Rightarrow> None
         | Some (Inl e) \<Rightarrow> Some (Inl e)
         | Some (Inr (positions, r')) \<Rightarrow>
             (case fillIDs g positions 0 (replicate (unat count) []) of
                Inl e \<Rightarrow> Some (Inl e)
              | Inr ids \<Rightarrow> Some (Inr (ids, r'))))"

section \<open>Positional notation\<close>

text \<open>
  For stating what the loops compute: the \<open>n\<close> low digits of \<open>t\<close> in base \<open>b\<close>, most
  significant first, and the identifier they spell under a configuration.
\<close>

primrec digits_of :: "nat \<Rightarrow> nat \<Rightarrow> nat \<Rightarrow> nat list" where
  "digits_of b 0 t = []"
| "digits_of b (Suc n) t = digits_of b n (t div b) @ [t mod b]"

definition render :: "Config \<Rightarrow> nat \<Rightarrow> string" where
  "render c x =
    concat (map (nth [''do'', ''re'', ''mi'', ''fa'', ''so'', ''la'', ''ti''])
      (digits_of 7 (unat (JustIntonationDigits c)) (x div 12 ^ unat (EqualTemperamentDigits c))))
    @ Separator c
    @ map (nth ''0123456789ab'')
      (digits_of 12 (unat (EqualTemperamentDigits c)) (x mod 12 ^ unat (EqualTemperamentDigits c)))"




text \<open>The count \<open>BatchGenerateIDs\<close> goes on with after its limiting step.\<close>

definition clamp :: "Generator \<Rightarrow> int64 \<Rightarrow> int64 \<Rightarrow> int64" where
  "clamp g count startPosition =
    (if MaxCombinations g <s startPosition + count
     then MaxCombinations g - startPosition else count)"



section \<open>Signed 64-bit values and natural numbers\<close>

lemma sint_word_of_int_64:
  "- (2 ^ 63) \<le> k \<Longrightarrow> k < 2 ^ 63 \<Longrightarrow> sint (word_of_int k :: int64) = k"
  by (simp add: sint_sbintrunc' signed_take_bit_int_eq_self)

lemma sint_of_nat_64: "n < 2 ^ 63 \<Longrightarrow> sint (of_nat n :: int64) = int n"
  using sint_word_of_int_64 [of "int n"] by simp

lemma unat_of_nat_64: "n < 2 ^ 63 \<Longrightarrow> unat (of_nat n :: int64) = n"
  by (simp add: unat_of_nat)

lemma sint_nonneg_unat:
  assumes "0 \<le> sint (w :: int64)"
  shows "sint w = int (unat w)"
proof -
  have "sint w < 2 ^ 64" using sint_lt [of w] by simp
  then have "take_bit 64 (sint w) = sint w"
    using assms by (simp add: take_bit_int_eq_self)
  then have "uint w = sint w" by (simp add: uint_sint)
  then show ?thesis using uint_nat [of w] by presburger
qed

lemma nonneg_int64:
  assumes "0 \<le>s (w :: int64)"
  shows "sint w = int (unat w)" and "unat w < 2 ^ 63" and "of_nat (unat w) = w"
proof -
  have a: "0 \<le> sint w" using assms by (simp add: word_sle_eq)
  show b: "sint w = int (unat w)" using a by (rule sint_nonneg_unat)
  have "sint w < 2 ^ 63" using sint_lt [of w] by simp
  then have "int (unat w) < int (2 ^ 63)" using b by simp
  then show "unat w < 2 ^ 63" by (simp only: of_nat_less_iff)
  show "of_nat (unat w) = w" by simp
qed

lemma of_nat_nonneg_64: "n < 2 ^ 63 \<Longrightarrow> 0 \<le>s (of_nat n :: int64)"
  by (simp add: word_sle_eq sint_of_nat_64)

lemma of_nat_sless_64:
  "a < 2 ^ 63 \<Longrightarrow> b < 2 ^ 63 \<Longrightarrow> (of_nat a :: int64) <s of_nat b \<longleftrightarrow> a < b"
  by (simp add: word_sless_alt sint_of_nat_64)

lemma of_nat_sle_64:
  "a < 2 ^ 63 \<Longrightarrow> b < 2 ^ 63 \<Longrightarrow> (of_nat a :: int64) \<le>s of_nat b \<longleftrightarrow> a \<le> b"
  by (simp add: word_sle_eq sint_of_nat_64)

lemma of_nat_eq_64:
  "a < 2 ^ 63 \<Longrightarrow> b < 2 ^ 63 \<Longrightarrow> (of_nat a :: int64) = of_nat b \<longleftrightarrow> a = b"
  by (metis unat_of_nat_64)

lemma sdiv_nonneg: "0 \<le> a \<Longrightarrow> 0 < b \<Longrightarrow> a sdiv b = a div (b::int)"
  by (simp add: signed_divide_int_def sgn_if)

lemma smod_nonneg: "0 \<le> a \<Longrightarrow> 0 < b \<Longrightarrow> a smod b = a mod (b::int)"
  by (cases "a = 0") (simp_all add: signed_modulo_int_def sgn_if)

lemma go_div_of_nat:
  "a < 2 ^ 63 \<Longrightarrow> b < 2 ^ 63 \<Longrightarrow> 0 < b \<Longrightarrow> go_div (of_nat a) (of_nat b) = of_nat (a div b)"
  by (simp add: go_div_def sint_of_nat_64 sdiv_nonneg flip: zdiv_int)

lemma go_rem_of_nat:
  "a < 2 ^ 63 \<Longrightarrow> b < 2 ^ 63 \<Longrightarrow> 0 < b \<Longrightarrow> go_rem (of_nat a) (of_nat b) = of_nat (a mod b)"
  by (simp add: go_rem_def sint_of_nat_64 smod_nonneg flip: zmod_int)

section \<open>The power loop\<close>

lemma intPow_loop_nonpos: "\<not> 0 <s exp \<Longrightarrow> intPow_loop result base exp = result"
  by simp

lemma intPow_loop_of_nat:
  "n < 2 ^ 63 \<Longrightarrow> intPow_loop result base (of_nat n) = result * base ^ n"
proof (induction n arbitrary: result base rule: less_induct)
  case (less n)
  show ?case
  proof (cases "n = 0")
    case True
    then show ?thesis by simp
  next
    case False
    then have pos: "0 <s (of_nat n :: int64)"
      using less.prems of_nat_sless_64 [of 0 n] by simp
    have two: "(2 :: int64) = of_nat 2" by simp
    have d: "go_div (of_nat n) 2 = (of_nat (n div 2) :: int64)"
      unfolding two using less.prems by (subst go_div_of_nat) simp_all
    have r: "go_rem (of_nat n) 2 = (of_nat (n mod 2) :: int64)"
      unfolding two using less.prems by (subst go_rem_of_nat) simp_all
    have r1: "(go_rem (of_nat n) 2 = (1 :: int64)) \<longleftrightarrow> n mod 2 = 1"
      using of_nat_eq_64 [of "n mod 2" 1] by (simp add: r)
    have lt: "n div 2 < n" using False by simp
    have b: "n div 2 < 2 ^ 63" using less.prems lt by simp
    have e: "n mod 2 + 2 * (n div 2) = n" by simp
    have step: "intPow_loop result base (of_nat n) =
      intPow_loop (if n mod 2 = 1 then result * base else result) (base * base) (of_nat (n div 2))"
      by (subst intPow_loop.simps) (simp add: pos d r1 del: intPow_loop.simps)
    have "intPow_loop result base (of_nat n) =
      (if n mod 2 = 1 then result * base else result) * (base * base) ^ (n div 2)"
      unfolding step by (rule less.IH [OF lt b])
    also have "\<dots> = result * base ^ (n mod 2) * base ^ (2 * (n div 2))"
      by (cases "n mod 2 = 1") (auto simp: power_mult power2_eq_square mult.assoc)
    also have "\<dots> = result * base ^ n"
    proof -
      have "base ^ n = base ^ (n mod 2) * base ^ (2 * (n div 2))"
        by (simp only: e flip: power_add)
      then show ?thesis by (simp only: mult.assoc)
    qed
    finally show ?thesis .
  qed
qed

lemma intPow_eq: "intPow base exp = (if 0 \<le>s exp then base ^ unat exp else 1)"
proof (cases "0 \<le>s exp")
  case True
  then have "intPow_loop 1 base (of_nat (unat exp)) = 1 * base ^ unat exp"
    by (intro intPow_loop_of_nat nonneg_int64)
  then show ?thesis using True by (simp add: intPow_def)
next
  case False
  then have "\<not> 0 <s exp" by (simp add: word_sle_eq word_sless_alt)
  then show ?thesis using False by (simp add: intPow_def)
qed

lemma New_simps:
  "JustIntonationDigits (New c) = JustIntonationDigits c"
  "EqualTemperamentDigits (New c) = EqualTemperamentDigits c"
  "Separator (New c) = Separator c"
  "justIntonationBytes (New c) = [''do'', ''re'', ''mi'', ''fa'', ''so'', ''la'', ''ti'']"
  "equalTemperamentBytes (New c) = ''0123456789ab''"
  "justIntonationLen (New c) = 7"
  "equalTemperamentLen (New c) = 12"
  by (simp_all add: New_def)

lemma MaxCombinations_New:
  "MaxCombinations (New c) =
    (if 0 \<le>s JustIntonationDigits c then 7 ^ unat (JustIntonationDigits c) else 1)
    * (if 0 \<le>s EqualTemperamentDigits c then 12 ^ unat (EqualTemperamentDigits c) else 1)"
  by (simp add: MaxCombinations_def New_simps intPow_eq)

section \<open>The digit loops\<close>

lemma length_digits_of [simp]: "length (digits_of b n t) = n"
  by (induction n arbitrary: t) simp_all

lemma digits_of_less: "0 < b \<Longrightarrow> d \<in> set (digits_of b n t) \<Longrightarrow> d < b"
  by (induction n arbitrary: t) auto

lemma digits_of_mod: "digits_of b n (t mod b ^ n) = digits_of b n t"
proof (induction n arbitrary: t)
  case 0
  show ?case by simp
next
  case (Suc n)
  have a: "(t mod (b * b ^ n)) div b = (t div b) mod b ^ n"
    by (cases "b = 0") (simp_all add: mod_mult2_eq)
  have b: "(t mod (b * b ^ n)) mod b = t mod b"
    by (cases "b = 0") (simp_all add: mod_mult2_eq)
  show ?case using Suc.IH [of "t div b"] by (simp add: a b)
qed


lemma of_nat_neq_0_64: "0 < b \<Longrightarrow> b < 2 ^ 63 \<Longrightarrow> (of_nat b :: int64) \<noteq> 0"
  using of_nat_eq_64 [of b 0] by simp

lemma fillDigits_of_nat:
  assumes "0 < b" and "b < 2 ^ 63"
  shows "t < 2 ^ 63 \<Longrightarrow> n \<le> length ds \<Longrightarrow>
    fillDigits (of_nat b) n (of_nat t) ds = Inr (map of_nat (digits_of b n t) @ drop n ds)"
proof (induction n arbitrary: t ds)
  case 0
  show ?case by simp
next
  case (Suc n)
  have nz: "(of_nat b :: int64) \<noteq> 0" using assms by (rule of_nat_neq_0_64)
  have d: "go_div (of_nat t) (of_nat b) = (of_nat (t div b) :: int64)"
    using Suc.prems assms by (simp add: go_div_of_nat)
  have r: "go_rem (of_nat t) (of_nat b) = (of_nat (t mod b) :: int64)"
    using Suc.prems assms by (simp add: go_rem_of_nat)
  have lt: "t div b < 2 ^ 63"
    using Suc.prems(1) by (meson div_le_dividend le_less_trans)
  have len: "n \<le> length (ds[n := (of_nat (t mod b) :: int64)])" using Suc.prems by simp
  have upd: "drop n (ds[n := x]) = x # drop (Suc n) ds" for x :: int64
    using Suc.prems(2) by (simp add: upd_conv_take_nth_drop)
  show ?case
    using Suc.IH [OF lt len] by (simp add: nz d r upd)
qed

lemma makeDigits_of_nat:
  assumes "0 < b" and "b < 2 ^ 63" and "t < 2 ^ 63" and "0 \<le>s n"
  shows "makeDigits (of_nat b) n (of_nat t) = Inr (map of_nat (digits_of b (unat n) t))"
proof -
  have "\<not> n <s 0" using assms(4) by (simp add: word_sle_eq word_sless_alt)
  then show ?thesis
    using fillDigits_of_nat [OF assms(1,2,3), of "unat n" "replicate (unat n) 0"]
    by (simp add: makeDigits_def)
qed

lemma elem_of_nat: "d < length xs \<Longrightarrow> length xs < 2 ^ 63 \<Longrightarrow> elem xs (of_nat d :: int64) = Inr (xs ! d)"
proof -
  assume a: "d < length xs" and b: "length xs < 2 ^ 63"
  then have d: "d < 2 ^ 63" by simp
  show ?thesis using a by (simp add: elem_def of_nat_nonneg_64 [OF d] unat_of_nat_64 [OF d])
qed

lemma appendNotes_of_nat:
  "length notes < 2 ^ 63 \<Longrightarrow> \<forall>d \<in> set ds. d < length notes \<Longrightarrow>
    appendNotes notes (map of_nat ds) result = Inr (result @ concat (map (nth notes) ds))"
  by (induction ds arbitrary: result) (simp_all add: elem_of_nat)

lemma appendChars_of_nat:
  "length chars < 2 ^ 63 \<Longrightarrow> \<forall>d \<in> set ds. d < length chars \<Longrightarrow>
    appendChars chars (map of_nat ds) result = Inr (result @ map (nth chars) ds)"
  by (induction ds arbitrary: result) (simp_all add: elem_of_nat)

lemma PositionToID_of_nat:
  assumes m: "0 \<le>s JustIntonationDigits c"
    and p: "0 \<le>s EqualTemperamentDigits c"
    and e: "12 ^ unat (EqualTemperamentDigits c) < (2 :: nat) ^ 63"
    and l: "2 * unat (JustIntonationDigits c) + length (Separator c)
              + unat (EqualTemperamentDigits c) < 2 ^ 63"
    and x: "x < 2 ^ 63"
  shows "PositionToID (New c) (of_nat x) = Inr (render c x)"
proof -
  let ?E = "12 ^ unat (EqualTemperamentDigits c) :: nat"
  have pos: "\<not> (of_nat x :: int64) <s 0"
    using of_nat_nonneg_64 [OF x] by (simp add: word_sle_eq word_sless_alt)
  have pw: "intPow 12 (EqualTemperamentDigits c) = 12 ^ unat (EqualTemperamentDigits c)"
    using p by (simp add: intPow_eq)
  have E': "(12 ^ unat (EqualTemperamentDigits c) :: int64) = of_nat ?E" by simp
  have Epos: "0 < ?E" by simp
  have nz: "(12 ^ unat (EqualTemperamentDigits c) :: int64) \<noteq> 0"
    unfolding E' using Epos e by (rule of_nat_neq_0_64)
  have d: "go_div (of_nat x) (12 ^ unat (EqualTemperamentDigits c)) = (of_nat (x div ?E) :: int64)"
    unfolding E' using x e Epos by (rule go_div_of_nat)
  have r: "go_rem (of_nat x) (12 ^ unat (EqualTemperamentDigits c)) = (of_nat (x mod ?E) :: int64)"
    unfolding E' using x e Epos by (rule go_rem_of_nat)
  have cap: "JustIntonationDigits c * 2 + of_nat (length (Separator c)) + EqualTemperamentDigits c
    = (of_nat (2 * unat (JustIntonationDigits c) + length (Separator c)
         + unat (EqualTemperamentDigits c)) :: int64)"
    by (simp add: mult.commute)
  have capok: "\<not> (JustIntonationDigits c * 2 + of_nat (length (Separator c))
      + EqualTemperamentDigits c) <s 0"
    unfolding cap using of_nat_nonneg_64 [OF l] by (simp add: word_sle_eq word_sless_alt)
  have seven: "(7 :: int64) = of_nat 7" and twelve: "(12 :: int64) = of_nat 12" by simp_all
  have dj: "x div ?E < 2 ^ 63" using x by (meson div_le_dividend le_less_trans)
  have dm: "x mod ?E < 2 ^ 63" using x by (meson mod_less_eq_dividend le_less_trans)
  have mj: "makeDigits 7 (JustIntonationDigits c) (of_nat (x div ?E))
    = Inr (map of_nat (digits_of 7 (unat (JustIntonationDigits c)) (x div ?E)))"
    unfolding seven using dj m by (intro makeDigits_of_nat) simp_all
  have me: "makeDigits 12 (EqualTemperamentDigits c) (of_nat (x mod ?E))
    = Inr (map of_nat (digits_of 12 (unat (EqualTemperamentDigits c)) (x mod ?E)))"
    unfolding twelve using dm p by (intro makeDigits_of_nat) simp_all
  have an: "appendNotes [''do'', ''re'', ''mi'', ''fa'', ''so'', ''la'', ''ti'']
      (map of_nat (digits_of 7 n t)) res
    = Inr (res @ concat (map (nth [''do'', ''re'', ''mi'', ''fa'', ''so'', ''la'', ''ti''])
        (digits_of 7 n t)))" for n t res
    by (rule appendNotes_of_nat) (auto dest: digits_of_less [rotated])
  have ac: "appendChars ''0123456789ab'' (map of_nat (digits_of 12 n t)) res
    = Inr (res @ map (nth ''0123456789ab'') (digits_of 12 n t))" for n t res
    by (rule appendChars_of_nat) (auto dest: digits_of_less [rotated])
  show ?thesis
    using pos nz capok
    by (simp add: PositionToID_def New_simps pw d r mj me an ac render_def Let_def)
qed


section \<open>The size of the identifier space\<close>

text \<open>
  Claim C2, as amended. For digit counts that are not negative and whose identifier space
  \<open>7^melodyDigits * 12^pitchDigits\<close> is below \<open>2^63\<close>, \<open>MaxCombinations\<close> returns exactly
  that number; for 4 melody digits and 5 pitch digits it returns 597,445,632.
\<close>

theorem MaxCombinations_exact:
  assumes "0 \<le>s JustIntonationDigits c"
    and "0 \<le>s EqualTemperamentDigits c"
    and "7 ^ unat (JustIntonationDigits c) * 12 ^ unat (EqualTemperamentDigits c) < (2 :: nat) ^ 63"
  shows "sint (MaxCombinations (New c))
           = 7 ^ unat (JustIntonationDigits c) * 12 ^ unat (EqualTemperamentDigits c)
         \<and> MaxCombinations
             (New \<lparr>JustIntonationDigits = 4, EqualTemperamentDigits = 5, Separator = ''-''\<rparr>)
           = 597445632"
proof
  let ?n = "7 ^ unat (JustIntonationDigits c) * 12 ^ unat (EqualTemperamentDigits c) :: nat"
  have "MaxCombinations (New c) = of_nat ?n"
    using assms(1,2) by (simp add: MaxCombinations_New)
  then have "sint (MaxCombinations (New c)) = int ?n"
    using assms(3) by (simp only: sint_of_nat_64)
  then show "sint (MaxCombinations (New c))
               = 7 ^ unat (JustIntonationDigits c) * 12 ^ unat (EqualTemperamentDigits c)"
    by simp
next
  show "MaxCombinations
          (New \<lparr>JustIntonationDigits = 4, EqualTemperamentDigits = 5, Separator = ''-''\<rparr>)
        = 597445632"
    by (simp add: MaxCombinations_New word_sle_eq)
qed

theorem MaxCombinations_exact_witness:
  "0 \<le>s (2 :: int64) \<and> 0 \<le>s (3 :: int64)
   \<and> 7 ^ unat (2 :: int64) * 12 ^ unat (3 :: int64) < (2 :: nat) ^ 63
   \<and> sint (MaxCombinations
         (New \<lparr>JustIntonationDigits = 2, EqualTemperamentDigits = 3, Separator = ''_''\<rparr>))
       = 84672"
proof -
  let ?c = "\<lparr>JustIntonationDigits = 2, EqualTemperamentDigits = 3, Separator = ''_''\<rparr>"
  have h1: "0 \<le>s JustIntonationDigits ?c" by (simp add: word_sle_eq)
  have h2: "0 \<le>s EqualTemperamentDigits ?c" by (simp add: word_sle_eq)
  have h3: "7 ^ unat (JustIntonationDigits ?c) * 12 ^ unat (EqualTemperamentDigits ?c) < (2 :: nat) ^ 63"
    by simp
  show ?thesis
    using h1 h2 h3 MaxCombinations_exact [OF h1 h2 h3] by simp
qed

text \<open>
  The claim as it is written fails twice: the value for 4 and 5 digits is not 597,394,032,
  and with 1 and 32 digits the 64-bit product has wrapped around to 0.
\<close>

theorem MaxCombinations_counterexample:
  "MaxCombinations
     (New \<lparr>JustIntonationDigits = 4, EqualTemperamentDigits = 5, Separator = ''-''\<rparr>)
     \<noteq> 597394032
   \<and> sint (MaxCombinations
           (New \<lparr>JustIntonationDigits = 1, EqualTemperamentDigits = 32, Separator = ''-''\<rparr>))
     \<noteq> 7 ^ 1 * 12 ^ 32"
  by (simp add: MaxCombinations_New word_sle_eq)

section \<open>Position to identifier: the literal examples\<close>

text \<open>
  Claim C8. With 1 melody digit, 2 pitch digits and the separator \<open>-\<close>, positions 0, 1, 12
  and 144 are rendered as \<open>do-00\<close>, \<open>do-01\<close>, \<open>do-10\<close> and \<open>re-00\<close>.
\<close>

theorem PositionToID_examples:
  "PositionToID (New \<lparr>JustIntonationDigits = 1, EqualTemperamentDigits = 2, Separator = ''-''\<rparr>) 0
     = Inr ''do-00''
   \<and> PositionToID (New \<lparr>JustIntonationDigits = 1, EqualTemperamentDigits = 2, Separator = ''-''\<rparr>) 1
     = Inr ''do-01''
   \<and> PositionToID (New \<lparr>JustIntonationDigits = 1, EqualTemperamentDigits = 2, Separator = ''-''\<rparr>) 12
     = Inr ''do-10''
   \<and> PositionToID (New \<lparr>JustIntonationDigits = 1, EqualTemperamentDigits = 2, Separator = ''-''\<rparr>) 144
     = Inr ''re-00''"
  by code_simp


section \<open>Position to identifier: every position\<close>







lemma PositionToID_nonneg:
  assumes m: "0 \<le>s JustIntonationDigits c"
    and p: "0 \<le>s EqualTemperamentDigits c"
    and e: "12 ^ unat (EqualTemperamentDigits c) < (2 :: nat) ^ 63"
    and l: "2 * unat (JustIntonationDigits c) + length (Separator c)
              + unat (EqualTemperamentDigits c) < 2 ^ 63"
    and x: "0 \<le>s position"
  shows "PositionToID (New c) position = Inr (render c (unat position))"
  using PositionToID_of_nat [OF m p e l nonneg_int64(2) [OF x]] nonneg_int64(3) [OF x]
  by simp




lemma MaxCombinations_of_nat:
  assumes "0 \<le>s JustIntonationDigits c" and "0 \<le>s EqualTemperamentDigits c"
  shows "MaxCombinations (New c)
    = of_nat (7 ^ unat (JustIntonationDigits c) * 12 ^ unat (EqualTemperamentDigits c))"
  using assms by (simp add: MaxCombinations_New)

lemma pitch_bound:
  "7 ^ m * 12 ^ p < (2 :: nat) ^ 63 \<Longrightarrow> 12 ^ p < (2 :: nat) ^ 63"
proof -
  assume a: "7 ^ m * 12 ^ p < (2 :: nat) ^ 63"
  have "(12 :: nat) ^ p \<le> 7 ^ m * 12 ^ p" by simp
  then show ?thesis using a by linarith
qed

lemma render_mod:
  "render c (x mod (7 ^ unat (JustIntonationDigits c) * 12 ^ unat (EqualTemperamentDigits c)))
    = render c x"
proof -
  let ?m = "unat (JustIntonationDigits c)" and ?E = "12 ^ unat (EqualTemperamentDigits c) :: nat"
  have a: "(x mod (?E * 7 ^ ?m)) div ?E = (x div ?E) mod 7 ^ ?m"
    by (simp add: mod_mult2_eq)
  have b: "(x mod (?E * 7 ^ ?m)) mod ?E = x mod ?E"
    by (simp add: mod_mult2_eq)
  show ?thesis
    by (simp add: render_def mult.commute [of "7 ^ ?m"] a b digits_of_mod)
qed

text \<open>
  Claim C9. When the digit counts are not negative and \<open>7^melodyDigits * 12^pitchDigits\<close>
  is below \<open>2^63\<close>, a position that is not negative and its remainder modulo
  \<open>MaxCombinations\<close> are rendered as the same identifier; so the first position out of
  range, \<open>MaxCombinations\<close> itself, is rendered as position 0 is.
\<close>

theorem PositionToID_wraps:
  assumes m: "0 \<le>s JustIntonationDigits c"
    and p: "0 \<le>s EqualTemperamentDigits c"
    and n: "7 ^ unat (JustIntonationDigits c) * 12 ^ unat (EqualTemperamentDigits c) < (2 :: nat) ^ 63"
    and l: "2 * unat (JustIntonationDigits c) + length (Separator c)
              + unat (EqualTemperamentDigits c) < 2 ^ 63"
    and x: "0 \<le>s position"
  shows "PositionToID (New c) position
           = PositionToID (New c)
               (word_of_int (sint position mod sint (MaxCombinations (New c))))
         \<and> PositionToID (New c) (MaxCombinations (New c)) = PositionToID (New c) 0"
proof
  let ?N = "7 ^ unat (JustIntonationDigits c) * 12 ^ unat (EqualTemperamentDigits c) :: nat"
  have e: "12 ^ unat (EqualTemperamentDigits c) < (2 :: nat) ^ 63" using n by (rule pitch_bound)
  have mx: "MaxCombinations (New c) = of_nat ?N" using m p by (rule MaxCombinations_of_nat)
  have smx: "sint (MaxCombinations (New c)) = int ?N" unfolding mx using n by (rule sint_of_nat_64)
  have sx: "sint position = int (unat position)" using x by (rule nonneg_int64(1))
  have lt: "unat position mod ?N < 2 ^ 63"
    using nonneg_int64(2) [OF x] by (meson mod_less_eq_dividend le_less_trans)
  have "sint position mod sint (MaxCombinations (New c)) = int (unat position mod ?N)"
    unfolding smx sx by (simp only: zmod_int)
  then have w: "(word_of_int (sint position mod sint (MaxCombinations (New c))) :: int64)
    = of_nat (unat position mod ?N)"
    by (simp only: of_int_of_nat_eq)
  show "PositionToID (New c) position
           = PositionToID (New c)
               (word_of_int (sint position mod sint (MaxCombinations (New c))))"
    unfolding w
    by (simp only: PositionToID_nonneg [OF m p e l x] PositionToID_of_nat [OF m p e l lt] render_mod)
  have z: "?N mod ?N < 2 ^ 63" by simp
  have "PositionToID (New c) (of_nat ?N) = Inr (render c ?N)"
    using m p e l n by (rule PositionToID_of_nat)
  moreover have "PositionToID (New c) (of_nat 0) = Inr (render c 0)"
    using m p e l by (rule PositionToID_of_nat) simp
  moreover have "render c ?N = render c 0"
    using render_mod [of c ?N] by simp
  ultimately show "PositionToID (New c) (MaxCombinations (New c)) = PositionToID (New c) 0"
    unfolding mx by simp
qed

theorem PositionToID_wraps_witness:
  "PositionToID (New \<lparr>JustIntonationDigits = 1, EqualTemperamentDigits = 2, Separator = ''-''\<rparr>) 1020
     = PositionToID (New \<lparr>JustIntonationDigits = 1, EqualTemperamentDigits = 2, Separator = ''-''\<rparr>) 12
   \<and> PositionToID (New \<lparr>JustIntonationDigits = 1, EqualTemperamentDigits = 2, Separator = ''-''\<rparr>) 1008
     = PositionToID (New \<lparr>JustIntonationDigits = 1, EqualTemperamentDigits = 2, Separator = ''-''\<rparr>) 0"
proof -
  let ?c = "\<lparr>JustIntonationDigits = 1, EqualTemperamentDigits = 2, Separator = ''-''\<rparr>"
  have m: "0 \<le>s JustIntonationDigits ?c" by (simp add: word_sle_eq)
  have p: "0 \<le>s EqualTemperamentDigits ?c" by (simp add: word_sle_eq)
  have n: "7 ^ unat (JustIntonationDigits ?c) * 12 ^ unat (EqualTemperamentDigits ?c) < (2 :: nat) ^ 63"
    by simp
  have l: "2 * unat (JustIntonationDigits ?c) + length (Separator ?c)
              + unat (EqualTemperamentDigits ?c) < 2 ^ 63" by simp
  have x: "0 \<le>s (1020 :: int64)" by (simp add: word_sle_eq)
  have mx: "MaxCombinations (New ?c) = 1008" by (simp add: MaxCombinations_New word_sle_eq)
  show ?thesis
    using PositionToID_wraps [OF m p n l x] by (simp add: mx)
qed



section \<open>Splitting on the separator\<close>





section \<open>The parsing loops\<close>







lemma just_lookup_Some:
  assumes "justIntonationMap (New c) s = Some i"
  shows "\<exists>d < 7. i = of_nat d"
proof -
  have "i \<in> {0, 1, 2, 3, 4, 5, 6}"
    using assms by (simp add: New_def split: if_splits)
  then have "unat i < 7" by auto
  moreover have "i = of_nat (unat i)" by simp
  ultimately show ?thesis by blast
qed

lemma equal_lookup_Some:
  assumes "equalTemperamentMap (New c) ch = Some i"
  shows "\<exists>d < 12. i = of_nat d"
proof -
  have "i \<in> {0, 1, 2, 3, 4, 5, 6, 7, 8, 9, 10, 11}"
    using assms by (simp add: New_def split: if_splits)
  then have "unat i < 12" by auto
  moreover have "i = of_nat (unat i)" by simp
  ultimately show ?thesis by blast
qed






section \<open>Identifier to position: the round trip\<close>






lemma parseJust_bound:
  "parseJust (New c) s (of_nat v) = Some r \<Longrightarrow> v < 7 ^ k \<Longrightarrow>
    \<exists>w. r = of_nat w \<and> w < 7 ^ (k + length s div 2)"
proof (induction s arbitrary: v k rule: induct_list012)
  case 1
  then show ?case by auto
next
  case (2 x)
  then show ?case by simp
next
  case (3 x y zs)
  from "3.prems"(1) obtain i where i: "justIntonationMap (New c) [x, y] = Some i"
    and r: "parseJust (New c) zs (of_nat v * 7 + i) = Some r"
    by (auto simp: New_simps split: option.splits)
  obtain d where d: "d < 7" and id: "i = of_nat d" using just_lookup_Some [OF i] by blast
  have r': "parseJust (New c) zs (of_nat (v * 7 + d)) = Some r" using r by (simp add: id)
  have "v + 1 \<le> 7 ^ k" using "3.prems"(2) by simp
  then have "(v + 1) * 7 \<le> 7 ^ k * 7" by (rule mult_le_mono1)
  then have b: "v * 7 + d < 7 ^ Suc k" using d by simp
  show ?case using "3.IH"(1) [OF r' b] by simp
qed

lemma parseEqual_bound:
  "parseEqual (New c) s (of_nat v) = Some r \<Longrightarrow> v < 12 ^ k \<Longrightarrow>
    \<exists>w. r = of_nat w \<and> w < 12 ^ (k + length s)"
proof (induction s arbitrary: v k)
  case Nil
  then show ?case by auto
next
  case (Cons x zs)
  from Cons.prems(1) obtain i where i: "equalTemperamentMap (New c) x = Some i"
    and r: "parseEqual (New c) zs (of_nat v * 12 + i) = Some r"
    by (auto simp: New_simps split: option.splits)
  obtain d where d: "d < 12" and id: "i = of_nat d" using equal_lookup_Some [OF i] by blast
  have r': "parseEqual (New c) zs (of_nat (v * 12 + d)) = Some r" using r by (simp add: id)
  have "v + 1 \<le> 12 ^ k" using Cons.prems(2) by simp
  then have "(v + 1) * 12 \<le> 12 ^ k * 12" by (rule mult_le_mono1)
  then have b: "v * 12 + d < 12 ^ Suc k" using d by simp
  show ?case using Cons.IH [OF r' b] by simp
qed


section \<open>Identifier to position: the range of the result\<close>

lemma two_mult_le_pow: "2 * m \<le> (7 :: nat) ^ m"
proof (induction m)
  case 0
  show ?case by simp
next
  case (Suc m)
  define t where "t = (7 :: nat) ^ m"
  have "1 \<le> t" and "2 * m \<le> t" using Suc by (simp_all add: t_def)
  then have "2 * m + 2 \<le> 7 * t" by linarith
  then show ?case by (simp add: t_def)
qed

lemma melody_bound:
  "7 ^ m * 12 ^ p < (2 :: nat) ^ 63 \<Longrightarrow> 2 * m < 2 ^ 63"
proof -
  assume a: "7 ^ m * 12 ^ p < (2 :: nat) ^ 63"
  have "(7 :: nat) ^ m \<le> 7 ^ m * 12 ^ p" by simp
  then have "(7 :: nat) ^ m < 2 ^ 63" using a by linarith
  then show ?thesis using two_mult_le_pow [of m] by linarith
qed

text \<open>
  Claim C10. When the digit counts are not negative and \<open>7^melodyDigits * 12^pitchDigits\<close>
  is below \<open>2^63\<close>, \<open>IDToPosition\<close> returns, for every string and every separator, either
  \<open>-1\<close> or a position from 0 up to, and not including, \<open>MaxCombinations\<close>.
\<close>

theorem IDToPosition_in_range:
  assumes m: "0 \<le>s JustIntonationDigits c"
    and p: "0 \<le>s EqualTemperamentDigits c"
    and n: "7 ^ unat (JustIntonationDigits c) * 12 ^ unat (EqualTemperamentDigits c) < (2 :: nat) ^ 63"
  shows "IDToPosition (New c) s = - 1
         \<or> (0 \<le>s IDToPosition (New c) s \<and> IDToPosition (New c) s <s MaxCombinations (New c))"
proof -
  let ?g = "New c"
  let ?m = "unat (JustIntonationDigits c)" and ?p = "unat (EqualTemperamentDigits c)"
  let ?E = "12 ^ ?p :: nat"
  define parts where "parts = Split s (Separator ?g)"
  show ?thesis
  proof (cases "length parts = 2
      \<and> int (length (parts ! 0)) = sint (JustIntonationDigits ?g * 2)
      \<and> int (length (parts ! 1)) = sint (EqualTemperamentDigits ?g)")
    case False
    then show ?thesis by (auto simp: IDToPosition_def Let_def parts_def)
  next
    case True
    show ?thesis
    proof (cases "parseJust ?g (parts ! 0) 0")
      case None
      then show ?thesis using True by (simp add: IDToPosition_def Let_def parts_def)
    next
      case (Some jv)
      note pj = this
      show ?thesis
      proof (cases "parseEqual ?g (parts ! 1) 0")
        case None
        then show ?thesis using True pj by (simp add: IDToPosition_def Let_def parts_def)
      next
        case (Some ev)
        have res: "IDToPosition ?g s
          = jv * intPow (equalTemperamentLen ?g) (EqualTemperamentDigits ?g) + ev"
          using True pj Some by (simp add: IDToPosition_def Let_def parts_def)
        have two: "JustIntonationDigits c * 2 = of_nat (2 * ?m)" by (simp add: mult.commute)
        have "sint (JustIntonationDigits c * 2) = int (2 * ?m)"
          unfolding two using melody_bound [OF n] by (rule sint_of_nat_64)
        then have "int (length (parts ! 0)) = int (2 * ?m)" using True by (simp only: New_simps)
        then have lj: "length (parts ! 0) = 2 * ?m" by (simp only: of_nat_eq_iff)
        have "sint (EqualTemperamentDigits c) = int ?p" using p by (rule nonneg_int64(1))
        then have "int (length (parts ! 1)) = int ?p" using True by (simp only: New_simps)
        then have le: "length (parts ! 1) = ?p" by (simp only: of_nat_eq_iff)
        have "parseJust ?g (parts ! 0) (of_nat 0) = Some jv" using pj by simp
        then have "\<exists>w. jv = of_nat w \<and> w < 7 ^ (0 + length (parts ! 0) div 2)"
          by (rule parseJust_bound) simp
        then obtain jw where jv: "jv = of_nat jw" and "jw < 7 ^ (0 + length (parts ! 0) div 2)"
          by blast
        then have jw: "jw < 7 ^ ?m" by (simp only: lj) simp
        have "parseEqual ?g (parts ! 1) (of_nat 0) = Some ev" using Some by simp
        then have "\<exists>w. ev = of_nat w \<and> w < 12 ^ (0 + length (parts ! 1))"
          by (rule parseEqual_bound) simp
        then obtain ew where ev: "ev = of_nat ew" and "ew < 12 ^ (0 + length (parts ! 1))"
          by blast
        then have ew: "ew < ?E" by (simp only: le) simp
        have pw: "intPow (equalTemperamentLen ?g) (EqualTemperamentDigits ?g) = 12 ^ ?p"
          using p by (simp add: intPow_eq New_simps)
        have "(of_nat (jw * ?E + ew) :: int64) = of_nat jw * 12 ^ ?p + of_nat ew"
          by (simp only: of_nat_add of_nat_mult of_nat_power of_nat_numeral)
        then have val: "IDToPosition ?g s = of_nat (jw * ?E + ew)"
          by (simp only: res pw jv ev)
        have "jw + 1 \<le> 7 ^ ?m" using jw by simp
        then have "(jw + 1) * ?E \<le> 7 ^ ?m * ?E" by (rule mult_le_mono1)
        then have lt: "jw * ?E + ew < 7 ^ ?m * ?E" using ew by simp
        then have b: "jw * ?E + ew < 2 ^ 63" using n by simp
        have mx: "MaxCombinations ?g = of_nat (7 ^ ?m * ?E)" using m p by (rule MaxCombinations_of_nat)
        have "0 \<le>s IDToPosition ?g s" unfolding val using b by (rule of_nat_nonneg_64)
        moreover have "IDToPosition ?g s <s MaxCombinations ?g"
          unfolding val mx using lt by (simp only: of_nat_sless_64 [OF b n])
        ultimately show ?thesis by blast
      qed
    qed
  qed
qed

theorem IDToPosition_in_range_witness:
  "IDToPosition (New \<lparr>JustIntonationDigits = 1, EqualTemperamentDigits = 2, Separator = ''-''\<rparr>) ''ti-bb''
     <s MaxCombinations (New \<lparr>JustIntonationDigits = 1, EqualTemperamentDigits = 2, Separator = ''-''\<rparr>)
   \<and> IDToPosition (New \<lparr>JustIntonationDigits = 1, EqualTemperamentDigits = 2, Separator = ''-''\<rparr>) ''ti-bb''
     = 1007"
proof -
  let ?c = "\<lparr>JustIntonationDigits = 1, EqualTemperamentDigits = 2, Separator = ''-''\<rparr>"
  have m: "0 \<le>s JustIntonationDigits ?c" by (simp add: word_sle_eq)
  have p: "0 \<le>s EqualTemperamentDigits ?c" by (simp add: word_sle_eq)
  have n: "7 ^ unat (JustIntonationDigits ?c) * 12 ^ unat (EqualTemperamentDigits ?c) < (2 :: nat) ^ 63"
    by simp
  have v: "IDToPosition (New ?c) ''ti-bb'' = 1007" by code_simp
  show ?thesis
    using IDToPosition_in_range [OF m p n, of "''ti-bb''"] v by simp
qed


section \<open>Identifier to position: rejected strings\<close>





text \<open>
  Claim C1 at a configuration with an empty separator. Position 0 is rendered as
  \<open>do00\<close>, and \<open>IDToPosition\<close> rejects that identifier: splitting on the empty separator
  cuts the string into its four characters. Where the separator has a byte that occurs in no
  symbol, the round trip holds (\<open>IDToPosition_render\<close> above).
\<close>

theorem roundtrip_empty_separator:
  "PositionToID (New \<lparr>JustIntonationDigits = 1, EqualTemperamentDigits = 2, Separator = ''''\<rparr>) 0
     = Inr ''do00''
   \<and> IDToPosition (New \<lparr>JustIntonationDigits = 1, EqualTemperamentDigits = 2, Separator = ''''\<rparr>) ''do00''
     = - 1"
  by code_simp

theorem roundtrip_empty_separator_witness:
  "(case PositionToID (New \<lparr>JustIntonationDigits = 1, EqualTemperamentDigits = 2, Separator = ''''\<rparr>) 0 of
      Inl e \<Rightarrow> False
    | Inr s \<Rightarrow>
        IDToPosition (New \<lparr>JustIntonationDigits = 1, EqualTemperamentDigits = 2, Separator = ''''\<rparr>) s
          \<noteq> 0)"
  using roundtrip_empty_separator by simp


section \<open>The loops that fill the result\<close>

lemma fillIDs_length: "fillIDs g ps i ids = Inr out \<Longrightarrow> length out = length ids"
  by (induction g ps i ids rule: fillIDs.induct) (auto split: sum.splits if_splits)

lemma seqLoop_length: "seqLoop g start n i ids = Inr out \<Longrightarrow> length out = length ids"
proof (induction g start n i ids rule: seqLoop.induct)
  case (1 g start n i ids)
  show ?case
  proof (cases "i < n")
    case False
    then show ?thesis using "1.prems" by (simp add: seqLoop.simps [of g start n i ids])
  next
    case True
    then obtain b where b: "PositionToID g (start + of_nat i) = Inr b" and i: "i < length ids"
      and r: "seqLoop g start n (Suc i) (ids[i := b]) = Inr out"
      using "1.prems" by (auto simp: seqLoop.simps [of g start n i ids] split: sum.splits if_splits)
    show ?thesis using "1.IH" [OF True b i r] by simp
  qed
qed

lemma seqLoop_map:
  assumes "\<And>k. k < n \<Longrightarrow> PositionToID g (start + of_nat k) = Inr (f k)"
    and "n \<le> length ids"
  shows "i \<le> n \<Longrightarrow> seqLoop g start n i ids = Inr (take i ids @ map f [i..<n] @ drop n ids)"
  using assms(2)
proof (induction "n - i" arbitrary: i ids)
  case 0
  then have "i = n" by simp
  then show ?case using 0 by (simp add: seqLoop.simps [of g start n n ids])
next
  case (Suc d)
  then have lt: "i < n" by simp
  let ?ids = "ids[i := f i]"
  have d: "d = n - Suc i" using Suc.hyps(2) by simp
  have le: "Suc i \<le> n" using lt by simp
  have len: "n \<le> length ?ids" using Suc.prems(2) by simp
  have il: "i < length ids" using lt Suc.prems(2) by simp
  have "seqLoop g start n i ids = seqLoop g start n (Suc i) ?ids"
    using lt il by (simp add: seqLoop.simps [of g start n i ids] assms(1))
  also have "\<dots> = Inr (take (Suc i) ?ids @ map f [Suc i..<n] @ drop n ?ids)"
    using d le len by (rule Suc.hyps(1))
  also have "take (Suc i) ?ids = take i ids @ [f i]"
    using il by (simp add: take_Suc_conv_app_nth)
  also have "drop n ?ids = drop n ids" using lt by simp
  finally show ?case using lt by (simp add: upt_conv_Cons)
qed


lemma sint_diff_nonneg:
  assumes "0 \<le>s (b :: int64)" and "b <s a"
  shows "sint (a - b) = sint a - sint b"
proof -
  have a0: "0 \<le>s a" using assms by (simp add: word_sle_eq word_sless_alt)
  note sa = nonneg_int64(1) [OF a0] and sb = nonneg_int64(1) [OF assms(1)]
  have "sint b < sint a" using assms(2) by (simp only: word_sless_alt)
  then have "int (unat b) < int (unat a)" by (simp only: sa sb)
  then have lt: "unat b < unat a" by (simp only: of_nat_less_iff)
  have "a - b = of_nat (unat a) - of_nat (unat b)" by simp
  also have "\<dots> = of_nat (unat a - unat b)" using lt by (simp only: of_nat_diff less_imp_le)
  finally have "sint (a - b) = int (unat a - unat b)"
    using nonneg_int64(2) [OF a0] by (simp only: sint_of_nat_64 less_imp_diff_less)
  also have "\<dots> = int (unat a) - int (unat b)"
    using lt by (simp only: of_nat_diff less_imp_le)
  finally show ?thesis by (simp only: sa sb)
qed

lemma unat_pos: "0 <s (w :: int64) \<Longrightarrow> 0 < unat w"
  by (metis unat_gt_0 word_sless_alt less_irrefl)

lemma clamp_pos:
  assumes "0 <s count" and "0 \<le>s startPosition" and "startPosition <s MaxCombinations g"
  shows "0 <s clamp g count startPosition"
proof (cases "MaxCombinations g <s startPosition + count")
  case True
  have "0 < sint (MaxCombinations g - startPosition)"
    using sint_diff_nonneg [OF assms(2,3)] assms(3) by (simp add: word_sless_alt)
  then show ?thesis using True by (simp add: clamp_def word_sless_alt)
next
  case False
  then show ?thesis using assms(1) by (simp add: clamp_def)
qed

lemma BatchGenerateIDs_loop:
  assumes "0 <s count" and "0 \<le>s startPosition" and "startPosition <s MaxCombinations g"
  shows "BatchGenerateIDs g count startPosition
    = seqLoop g startPosition (unat (clamp g count startPosition)) 0
        (replicate (unat (clamp g count startPosition)) [])"
proof -
  have a: "\<not> count \<le>s 0" and b: "\<not> startPosition <s 0"
    and c: "\<not> MaxCombinations g \<le>s startPosition"
    using assms by (simp_all add: word_sle_eq word_sless_alt)
  have d: "\<not> clamp g count startPosition \<le>s 0"
    using clamp_pos [OF assms] by (simp add: word_sle_eq word_sless_alt)
  show ?thesis
    using a b c d unfolding BatchGenerateIDs_def clamp_def Let_def by (simp only: if_False simp_thms)
qed

section \<open>Empty batches\<close>

text \<open>
  Claim C5. For every generator, \<open>BatchGenerateRandomIDs\<close> returns the empty sequence
  exactly when the count is not positive or exceeds \<open>MaxCombinations\<close>, and
  \<open>BatchGenerateIDs\<close> returns it exactly when the count is not positive or the start
  position is negative or not below \<open>MaxCombinations\<close>.
\<close>

theorem batches_empty_iff:
  "((\<exists>r'. BatchGenerateRandomIDs g count r = Some (Inr ([], r')))
      \<longleftrightarrow> (count \<le>s 0 \<or> MaxCombinations g <s count))
   \<and> (BatchGenerateIDs g count startPosition = Inr []
      \<longleftrightarrow> (count \<le>s 0 \<or> startPosition <s 0 \<or> MaxCombinations g \<le>s startPosition))"
proof
  show "(\<exists>r'. BatchGenerateRandomIDs g count r = Some (Inr ([], r')))
      \<longleftrightarrow> (count \<le>s 0 \<or> MaxCombinations g <s count)"
  proof (cases "count \<le>s 0 \<or> MaxCombinations g <s count")
    case True
    then show ?thesis by (auto simp: BatchGenerateRandomIDs_def)
  next
    case False
    then have "0 <s count" by (simp add: word_sle_eq word_sless_alt)
    then have pos: "0 < unat count" by (rule unat_pos)
    have "BatchGenerateRandomIDs g count r \<noteq> Some (Inr ([], r'))" for r'
    proof
      assume "BatchGenerateRandomIDs g count r = Some (Inr ([], r'))"
      then obtain positions where "fillIDs g positions 0 (replicate (unat count) []) = Inr []"
        using False
        by (auto simp: BatchGenerateRandomIDs_def Let_def split: option.splits sum.splits)
      then have "length ([] :: string list) = length (replicate (unat count) ([] :: string))"
        by (rule fillIDs_length)
      then show False using pos by simp
    qed
    then show ?thesis using False by blast
  qed
next
  show "BatchGenerateIDs g count startPosition = Inr []
      \<longleftrightarrow> (count \<le>s 0 \<or> startPosition <s 0 \<or> MaxCombinations g \<le>s startPosition)"
  proof (cases "count \<le>s 0 \<or> startPosition <s 0 \<or> MaxCombinations g \<le>s startPosition")
    case True
    then show ?thesis by (auto simp: BatchGenerateIDs_def Let_def)
  next
    case False
    then have a: "0 <s count" and b: "0 \<le>s startPosition"
      and c: "startPosition <s MaxCombinations g"
      by (simp_all add: word_sle_eq word_sless_alt)
    have pos: "0 < unat (clamp g count startPosition)"
      using clamp_pos [OF a b c] by (rule unat_pos)
    have "BatchGenerateIDs g count startPosition \<noteq> Inr []"
    proof
      assume "BatchGenerateIDs g count startPosition = Inr []"
      then have "seqLoop g startPosition (unat (clamp g count startPosition)) 0
          (replicate (unat (clamp g count startPosition)) []) = Inr []"
        by (simp only: BatchGenerateIDs_loop [OF a b c])
      then have "length ([] :: string list)
          = length (replicate (unat (clamp g count startPosition)) ([] :: string))"
        by (rule seqLoop_length)
      then show False using pos by simp
    qed
    then show ?thesis using False by blast
  qed
qed

section \<open>Sequential batches\<close>

lemma BatchGenerateIDs_sequential:
  assumes m: "0 \<le>s JustIntonationDigits c"
    and p: "0 \<le>s EqualTemperamentDigits c"
    and e: "12 ^ unat (EqualTemperamentDigits c) < (2 :: nat) ^ 63"
    and l: "2 * unat (JustIntonationDigits c) + length (Separator c)
              + unat (EqualTemperamentDigits c) < 2 ^ 63"
    and a: "0 <s count" and b: "0 \<le>s startPosition"
    and d: "startPosition <s MaxCombinations (New c)"
    and n: "unat startPosition + unat (clamp (New c) count startPosition) \<le> 2 ^ 63"
  shows "BatchGenerateIDs (New c) count startPosition
    = Inr (map (\<lambda>k. render c (unat startPosition + k))
        [0..<unat (clamp (New c) count startPosition)])"
proof -
  let ?n = "unat (clamp (New c) count startPosition)"
  have f: "PositionToID (New c) (startPosition + of_nat k) = Inr (render c (unat startPosition + k))"
    if "k < ?n" for k
  proof -
    have x: "unat startPosition + k < 2 ^ 63" using that n by simp
    have "startPosition + of_nat k = of_nat (unat startPosition + k)" by simp
    then show ?thesis using PositionToID_of_nat [OF m p e l x] by simp
  qed
  have "seqLoop (New c) startPosition ?n 0 (replicate ?n [])
    = Inr (take 0 (replicate ?n []) @ map (\<lambda>k. render c (unat startPosition + k)) [0..<?n]
        @ drop ?n (replicate ?n []))"
    by (rule seqLoop_map) (simp_all add: f)
  then show ?thesis by (simp add: BatchGenerateIDs_loop [OF a b d])
qed

lemma BatchGenerateIDs_example:
  "BatchGenerateIDs
     (New \<lparr>JustIntonationDigits = 1, EqualTemperamentDigits = 1, Separator = ''-''\<rparr>) 10 80
    = Inr [''ti-8'', ''ti-9'', ''ti-a'', ''ti-b'']"
  by code_simp

text \<open>
  Claim C4 at a count near the top of \<open>int64\<close>. With \<open>MaxCombinations = 84\<close>, start
  position 1 and count \<open>2^63 - 1\<close>, the sum \<open>startPosition + count\<close> wraps around to
  \<open>-2^63\<close>, the limiting step does not fire, and the batch is built for all \<open>2^63 - 1\<close>
  positions instead of the 83 that are left. Where the sum does not wrap, the batch is the
  limited one (\<open>BatchGenerateIDs_sequential\<close> and \<open>BatchGenerateIDs_example\<close> above).
\<close>

theorem BatchGenerateIDs_unclamped:
  "\<exists>ids. BatchGenerateIDs
            (New \<lparr>JustIntonationDigits = 1, EqualTemperamentDigits = 1, Separator = ''-''\<rparr>)
            9223372036854775807 1 = Inr ids
         \<and> length ids = 9223372036854775807"
proof -
  let ?c = "\<lparr>JustIntonationDigits = 1, EqualTemperamentDigits = 1, Separator = ''-''\<rparr>"
  define count :: int64 where "count = 9223372036854775807"
  have mx: "MaxCombinations (New ?c) = 84" by (simp add: MaxCombinations_New word_sle_eq)
  have cl: "clamp (New ?c) count 1 = count"
    by (simp add: clamp_def mx count_def word_sless_alt)
  have u: "unat count = 9223372036854775807" by (simp add: count_def)
  have a: "0 <s count" by (simp add: count_def word_sless_alt)
  have m: "0 \<le>s JustIntonationDigits ?c" and p: "0 \<le>s EqualTemperamentDigits ?c"
    by (simp_all add: word_sle_eq)
  have e: "12 ^ unat (EqualTemperamentDigits ?c) < (2 :: nat) ^ 63" by simp
  have l: "2 * unat (JustIntonationDigits ?c) + length (Separator ?c)
              + unat (EqualTemperamentDigits ?c) < 2 ^ 63" by simp
  have b: "0 \<le>s (1 :: int64)" by (simp add: word_sle_eq)
  have d: "(1 :: int64) <s MaxCombinations (New ?c)" by (simp add: mx word_sless_alt)
  have n: "unat (1 :: int64) + unat (clamp (New ?c) count 1) \<le> 2 ^ 63" by (simp add: cl u)
  have "BatchGenerateIDs (New ?c) count 1
    = Inr (map (\<lambda>k. render ?c (unat (1 :: int64) + k)) [0..<unat (clamp (New ?c) count 1)])"
    using m p e l a b d n by (rule BatchGenerateIDs_sequential)
  then have "BatchGenerateIDs (New ?c) count 1
    = Inr (map (\<lambda>k. render ?c (unat (1 :: int64) + k)) [0..<unat count])"
    by (simp only: cl)
  then have "\<exists>ids. BatchGenerateIDs (New ?c) count 1 = Inr ids \<and> length ids = unat count"
    by simp
  then show ?thesis by (simp only: u) (simp only: count_def)
qed


section \<open>Sampling positions\<close>















section \<open>Identifiers of different positions\<close>




section \<open>A stream that repeats itself\<close>


section \<open>Random batches: unique identifiers\<close>




end
